theory Spec2Isabelle
  imports Complex_Main "HOL-Library.Monad_Syntax"
begin

section \<open>Points, voxel indices, transforms and images\<close>

text \<open>
  The seeding strategies of \<^verbatim>\<open>src/dwi/tractography/seeding/basic.cpp\<close> produce points
  of scanner space (\<^verbatim>\<open>Eigen::Vector3f\<close>) from voxel indices of a mask or density image.
  Coordinates are modelled by exact reals: rounding of \<^verbatim>\<open>float\<close> arithmetic is not part
  of the model. A voxel index is the triple \<^verbatim>\<open>index(0), index(1), index(2)\<close> of signed
  integers (the cursor of an image starts a traversal at \<open>(0, 0, -1)\<close>).
\<close>

type_synonym point3 = "real \<times> real \<times> real"

type_synonym voxel = "int \<times> int \<times> int"

fun ix0 :: "voxel \<Rightarrow> int" where
  "ix0 (i0, i1, i2) = i0"

fun ix1 :: "voxel \<Rightarrow> int" where
  "ix1 (i0, i1, i2) = i1"

fun ix2 :: "voxel \<Rightarrow> int" where
  "ix2 (i0, i1, i2) = i2"

fun squaredNorm :: "point3 \<Rightarrow> real" where
  "squaredNorm (x, y, z) = x * x + y * y + z * z"

fun vec_add :: "point3 \<Rightarrow> point3 \<Rightarrow> point3" where
  "vec_add (a, b, c) (x, y, z) = (a + x, b + y, c + z)"

fun vec_scale :: "real \<Rightarrow> point3 \<Rightarrow> point3" where
  "vec_scale r (x, y, z) = (r * x, r * y, r * z)"

text \<open>The affine map \<^verbatim>\<open>voxel2scanner\<close>: a 3x4 matrix applied to a 3-vector.\<close>

record transform =
  row0 :: "real \<times> real \<times> real \<times> real"
  row1 :: "real \<times> real \<times> real \<times> real"
  row2 :: "real \<times> real \<times> real \<times> real"

fun apply_row :: "real \<times> real \<times> real \<times> real \<Rightarrow> point3 \<Rightarrow> real" where
  "apply_row (a, b, c, t) (x, y, z) = a * x + b * y + c * z + t"

definition transform_point :: "transform \<Rightarrow> point3 \<Rightarrow> point3" where
  "transform_point T p = (apply_row (row0 T) p, apply_row (row1 T) p, apply_row (row2 T) p)"

text \<open>
  An image as the strategies use it: the three spatial extents \<^verbatim>\<open>size(0..2)\<close>, the
  value stored at a voxel index, and the voxel-to-scanner transform. Reading a voxel
  outside the extents is undefined in the source; every theorem below that reads the
  image does so under \<open>valid_dims\<close>, where all reads of the traversal are inside.
\<close>

record 'a image =
  size0 :: int
  size1 :: int
  size2 :: int
  value_at :: "voxel \<Rightarrow> 'a"
  voxel2scanner :: transform

definition dims :: "'a image \<Rightarrow> int \<times> int \<times> int" where
  "dims m = (size0 m, size1 m, size2 m)"

fun valid_dims :: "int \<times> int \<times> int \<Rightarrow> bool" where
  "valid_dims (n0, n1, n2) = (0 < n0 \<and> 0 < n1 \<and> 0 < n2)"

fun in_grid :: "int \<times> int \<times> int \<Rightarrow> voxel \<Rightarrow> bool" where
  "in_grid (n0, n1, n2) (i0, i1, i2) =
     (0 \<le> i0 \<and> i0 < n0 \<and> 0 \<le> i1 \<and> i1 < n1 \<and> 0 \<le> i2 \<and> i2 < n2)"

definition axis :: "int \<Rightarrow> int list" where
  "axis n = map int [0..<nat n]"

text \<open>All voxels of a grid, the last axis varying fastest and axis 0 slowest.\<close>

fun raster :: "int \<times> int \<times> int \<Rightarrow> voxel list" where
  "raster (n0, n1, n2) =
     concat (map (\<lambda>i0. concat (map (\<lambda>i1. map (\<lambda>i2. (i0, i1, i2)) (axis n2)) (axis n1))) (axis n0))"

text \<open>
  The opposite order: axis 0 varying fastest and the last axis slowest. It is the order
  of \<^verbatim>\<open>Loop (0,3)\<close> in the constructor of Rejection, and the order the traversal of
  the per-voxel strategies is compared with.
\<close>

fun raster_axis0_fastest :: "int \<times> int \<times> int \<Rightarrow> voxel list" where
  "raster_axis0_fastest (n0, n1, n2) =
     concat (map (\<lambda>i2. concat (map (\<lambda>i1. map (\<lambda>i0. (i0, i1, i2)) (axis n0)) (axis n1))) (axis n2))"

text \<open>The voxel whose cube contains a point of voxel space (voxel centres are integers).\<close>

fun voxel_of :: "point3 \<Rightarrow> voxel" where
  "voxel_of (x, y, z) = (\<lfloor>x + 1 / 2\<rfloor>, \<lfloor>y + 1 / 2\<rfloor>, \<lfloor>z + 1 / 2\<rfloor>)"

section \<open>The random source\<close>

text \<open>
  The generator \<^verbatim>\<open>rng\<close> and the distributions of the C++ standard library are outside
  the repository. A generator is modelled by the infinite stream of its raw draws, each a
  real number; \<open>rng_ok\<close> is the library's contract that a raw draw lies in \<open>[0, 1)\<close>.
  \<^verbatim>\<open>std::uniform_real_distribution<float>\<close> with its default range returns the draw,
  \<^verbatim>\<open>std::uniform_int_distribution<int> (a, b)\<close> maps it onto \<open>a..b\<close>; each consumes one
  draw.
\<close>

type_synonym rng = "nat \<Rightarrow> real"

definition rng_ok :: "rng \<Rightarrow> bool" where
  "rng_ok g = (\<forall>n. 0 \<le> g n \<and> g n < 1)"

definition rng_drop :: "nat \<Rightarrow> rng \<Rightarrow> rng" where
  "rng_drop k g = (\<lambda>n. g (n + k))"

definition uniform_real :: "rng \<Rightarrow> real \<times> rng" where
  "uniform_real g = (g 0, rng_drop 1 g)"

definition uniform_int :: "int \<Rightarrow> int \<Rightarrow> rng \<Rightarrow> int \<times> rng" where
  "uniform_int a b g = (a + \<lfloor>g 0 * of_int (b - a + 1)\<rfloor>, rng_drop 1 g)"

text \<open>
  The expression shared by lines 62, 100 and 229: the voxel index plus a fresh draw
  minus one half on each axis, the draws taken in the order of the braced list.
\<close>

definition random_in_voxel :: "voxel \<Rightarrow> rng \<Rightarrow> point3 \<times> rng" where
  "random_in_voxel c g =
     (let (u0, g1) = uniform_real g;
          (u1, g2) = uniform_real g1;
          (u2, g3) = uniform_real g2
      in ((of_int (ix0 c) + u0 - 1 / 2, of_int (ix1 c) + u1 - 1 / 2, of_int (ix2 c) + u2 - 1 / 2), g3))"

section \<open>Sphere\<close>

record sphere =
  pos :: point3
  rad :: real

text \<open>The do-while loop of lines 42 to 44; it has no bound, so not returning is \<open>None\<close>.\<close>

partial_function (option) sphere_draw :: "rng \<Rightarrow> (point3 \<times> rng) option" where
  "sphere_draw g =
     (let (u0, g1) = uniform_real g;
          (u1, g2) = uniform_real g1;
          (u2, g3) = uniform_real g2;
          p = (2 * u0 - 1, 2 * u1 - 1, 2 * u2 - 1)
      in if squaredNorm p > 1 then sphere_draw g3 else Some (p, g3))"

definition Sphere_get_seed :: "sphere \<Rightarrow> rng \<Rightarrow> (bool \<times> point3 \<times> rng) option" where
  "Sphere_get_seed S g =
     (case sphere_draw g of
        None \<Rightarrow> None
      | Some (p, g') \<Rightarrow> Some (True, vec_add (pos S) (vec_scale (rad S) p), g'))"

text \<open>The \<open>n\<close>-th candidate of the loop on a stream: three draws per attempt.\<close>

definition sphere_candidate :: "rng \<Rightarrow> nat \<Rightarrow> point3" where
  "sphere_candidate g n = (2 * g (3 * n) - 1, 2 * g (3 * n + 1) - 1, 2 * g (3 * n + 2) - 1)"

section \<open>SeedMask\<close>

text \<open>The do-while loop of lines 56 to 60 on a copy of the mask's cursor.\<close>

partial_function (option) seedmask_draw :: "bool image \<Rightarrow> rng \<Rightarrow> (voxel \<times> rng) option" where
  "seedmask_draw msk g =
     (let (i0, g1) = uniform_int 0 (size0 msk - 1) g;
          (i1, g2) = uniform_int 0 (size1 msk - 1) g1;
          (i2, g3) = uniform_int 0 (size2 msk - 1) g2
      in if \<not> value_at msk (i0, i1, i2) then seedmask_draw msk g3 else Some ((i0, i1, i2), g3))"

definition SeedMask_get_seed :: "bool image \<Rightarrow> rng \<Rightarrow> (bool \<times> point3 \<times> rng) option" where
  "SeedMask_get_seed msk g =
     (case seedmask_draw msk g of
        None \<Rightarrow> None
      | Some (c, g') \<Rightarrow>
          (let (q, g'') = random_in_voxel c g'
           in Some (True, transform_point (voxel2scanner msk) q, g'')))"

definition seedmask_candidate :: "bool image \<Rightarrow> rng \<Rightarrow> nat \<Rightarrow> voxel" where
  "seedmask_candidate msk g n =
     (\<lfloor>g (3 * n) * of_int (size0 msk)\<rfloor>,
      \<lfloor>g (3 * n + 1) * of_int (size1 msk)\<rfloor>,
      \<lfloor>g (3 * n + 2) * of_int (size2 msk)\<rfloor>)"

section \<open>The raster traversal shared by Random_per_voxel and Grid_per_voxel\<close>

text \<open>One pass through the body of the do-while loop (lines 84 to 90 and 128 to 134).\<close>

fun cursor_next :: "int \<times> int \<times> int \<Rightarrow> voxel \<Rightarrow> voxel" where
  "cursor_next (n0, n1, n2) (i0, i1, i2) =
     (if i2 + 1 = n2
      then (if i1 + 1 = n1 then (i0 + 1, 0, 0) else (i0, i1 + 1, 0))
      else (i0, i1, i2 + 1))"

text \<open>
  The do-while loop: step the cursor until it leaves the grid along axis 0 or stands
  on a voxel with a non-zero mask value.
\<close>

partial_function (option) advance :: "bool image \<Rightarrow> voxel \<Rightarrow> voxel option" where
  "advance msk c =
     (let c' = cursor_next (dims msk) c
      in if ix0 c' \<noteq> size0 msk \<and> \<not> value_at msk c' then advance msk c' else Some c')"

text \<open>
  The same loop, recording every position the cursor is moved to (the last one is where
  the loop leaves it). It is used to state which voxels the cursor visits.
\<close>

partial_function (option) advance_path :: "bool image \<Rightarrow> voxel \<Rightarrow> voxel list option" where
  "advance_path msk c =
     (let c' = cursor_next (dims msk) c
      in if ix0 c' \<noteq> size0 msk \<and> \<not> value_at msk c'
         then Option.bind (advance_path msk c') (\<lambda>path. Some (c' # path))
         else Some [c'])"

record traversal =
  index :: voxel
  expired :: bool

section \<open>Random_per_voxel\<close>

text \<open>
  The mutable members: the mask's cursor, the counter \<^verbatim>\<open>inc\<close> and the flag
  \<^verbatim>\<open>expired\<close>. The declarations of \<^verbatim>\<open>inc\<close> and \<^verbatim>\<open>num\<close> are not in the sources at
  hand; both are modelled by unbounded naturals.
\<close>

record rpv_state = traversal +
  inc :: nat

definition rpv_emit ::
  "bool image \<Rightarrow> rpv_state \<Rightarrow> rng \<Rightarrow> (bool \<times> point3 \<times> rpv_state \<times> rng) option" where
  "rpv_emit msk st g =
     (let (q, g') = random_in_voxel (index st) g
      in Some (True, transform_point (voxel2scanner msk) q, st, g'))"

text \<open>
  \<^verbatim>\<open>Random_per_voxel::get_seed\<close>. The point \<open>p\<close> is the caller's variable: it is left
  alone when the call returns false. The test of line 80 short-circuits, so \<^verbatim>\<open>inc\<close> is
  incremented only when the cursor has a non-negative last index.
\<close>

definition rpv_get_seed ::
  "bool image \<Rightarrow> nat \<Rightarrow> rpv_state \<Rightarrow> point3 \<Rightarrow> rng \<Rightarrow> (bool \<times> point3 \<times> rpv_state \<times> rng) option" where
  "rpv_get_seed msk num st p g =
     (if expired st then Some (False, p, st, g)
      else
        (let st1 = (if ix2 (index st) < 0 then st else st\<lparr>inc := inc st + 1\<rparr>)
         in if ix2 (index st) < 0 \<or> inc st1 = num
            then
              (case advance msk (index st1) of
                 None \<Rightarrow> None
               | Some c \<Rightarrow>
                   (let st2 = st1\<lparr>inc := 0, index := c\<rparr>
                    in if ix0 c = size0 msk
                       then Some (False, p, st2\<lparr>expired := True\<rparr>, g)
                       else rpv_emit msk st2 g))
            else rpv_emit msk st1 g))"

text \<open>
  The state the constructor leaves (the constructor is not in the sources at hand; line
  80 tests for the negative last index it sets).
\<close>

definition rpv_init :: rpv_state where
  "rpv_init = \<lparr>index = (0, 0, - 1), expired = False, inc = 0\<rparr>"

section \<open>Grid_per_voxel\<close>

record gpv_state = traversal +
  subpos :: "int \<times> int \<times> int"

definition gpv_emit ::
  "bool image \<Rightarrow> real \<Rightarrow> real \<Rightarrow> gpv_state \<Rightarrow> (bool \<times> point3 \<times> gpv_state) option" where
  "gpv_emit msk offset step st =
     (case index st of (i0, i1, i2) \<Rightarrow>
        (case subpos st of (p0, p1, p2) \<Rightarrow>
           Some (True,
                 transform_point (voxel2scanner msk)
                   (of_int i0 + offset + of_int p0 * step,
                    of_int i1 + offset + of_int p1 * step,
                    of_int i2 + offset + of_int p2 * step),
                 st)))"

text \<open>
  \<^verbatim>\<open>Grid_per_voxel::get_seed\<close>; \<open>subpos\<close> is the member \<^verbatim>\<open>pos\<close>, and \<open>os\<close>, \<open>offset\<close>
  and \<open>step\<close> are the constant members of those names, taken as parameters.
\<close>

definition gpv_get_seed ::
  "bool image \<Rightarrow> int \<Rightarrow> real \<Rightarrow> real \<Rightarrow> gpv_state \<Rightarrow> point3 \<Rightarrow> (bool \<times> point3 \<times> gpv_state) option" where
  "gpv_get_seed msk os offset step st p =
     (if expired st then Some (False, p, st)
      else
        (case subpos st of (p0, p1, p2) \<Rightarrow>
           if p2 + 1 \<ge> os then
             (if p1 + 1 \<ge> os then
                (if p0 + 1 \<ge> os then
                   (case advance msk (index st) of
                      None \<Rightarrow> None
                    | Some c \<Rightarrow>
                        (let st' = st\<lparr>subpos := (0, 0, 0), index := c\<rparr>
                         in if ix0 c = size0 msk
                            then Some (False, p, st'\<lparr>expired := True\<rparr>)
                            else gpv_emit msk offset step st'))
                 else gpv_emit msk offset step (st\<lparr>subpos := (p0 + 1, 0, 0)\<rparr>))
              else gpv_emit msk offset step (st\<lparr>subpos := (p0, p1 + 1, 0)\<rparr>))
           else gpv_emit msk offset step (st\<lparr>subpos := (p0, p1, p2 + 1)\<rparr>)))"

text \<open>
  The state the constructor leaves (not in the sources at hand): the cursor before the
  first voxel and every component of \<^verbatim>\<open>pos\<close> at \<open>os\<close>, so that the first call wraps all
  three and moves the cursor.
\<close>

definition gpv_init :: "int \<Rightarrow> gpv_state" where
  "gpv_init os = \<lparr>index = (0, 0, - 1), expired = False, subpos = (os, os, os)\<rparr>"

section \<open>Running a strategy until it returns false\<close>

text \<open>
  The caller's loop: call \<open>f\<close> until it returns false and collect what the successful
  calls produced. A strategy that never returns false makes it run forever (\<open>None\<close>).
\<close>

partial_function (option) exhaust ::
  "('s \<Rightarrow> (bool \<times> 'a \<times> 's) option) \<Rightarrow> 's \<Rightarrow> 'a list \<Rightarrow> ('a list \<times> 's) option" where
  "exhaust f s acc =
     (case f s of
        None \<Rightarrow> None
      | Some (ok, a, s') \<Rightarrow> if ok then exhaust f s' (acc @ [a]) else Some (acc, s'))"

text \<open>The positions the cursor is moved to by one call, read off the state before it.\<close>

definition rpv_moves :: "bool image \<Rightarrow> nat \<Rightarrow> rpv_state \<Rightarrow> voxel list option" where
  "rpv_moves msk num st =
     (if expired st then Some []
      else if ix2 (index st) < 0 \<or> inc st + 1 = num then advance_path msk (index st)
      else Some [])"

definition gpv_moves :: "bool image \<Rightarrow> int \<Rightarrow> gpv_state \<Rightarrow> voxel list option" where
  "gpv_moves msk os st =
     (if expired st then Some []
      else
        (case subpos st of (p0, p1, p2) \<Rightarrow>
           if p2 + 1 \<ge> os \<and> p1 + 1 \<ge> os \<and> p0 + 1 \<ge> os then advance_path msk (index st)
           else Some []))"

text \<open>
  One call as the caller's loop sees it. A successful call is recorded as the voxel the
  cursor stands on together with the point written; the last component of the state
  accumulates the positions the cursor has been moved to so far.
\<close>

definition rpv_call ::
  "bool image \<Rightarrow> nat \<Rightarrow> rpv_state \<times> point3 \<times> rng \<times> voxel list \<Rightarrow>
   (bool \<times> (voxel \<times> point3) \<times> rpv_state \<times> point3 \<times> rng \<times> voxel list) option" where
  "rpv_call msk num s =
     (case s of (st, p, g, visited) \<Rightarrow>
        (case rpv_moves msk num st of
           None \<Rightarrow> None
         | Some moved \<Rightarrow>
             (case rpv_get_seed msk num st p g of
                None \<Rightarrow> None
              | Some (ok, p', st', g') \<Rightarrow>
                  Some (ok, (index st', p'), st', p', g', visited @ moved))))"

definition gpv_call ::
  "bool image \<Rightarrow> int \<Rightarrow> real \<Rightarrow> real \<Rightarrow> gpv_state \<times> point3 \<times> voxel list \<Rightarrow>
   (bool \<times> ((voxel \<times> int \<times> int \<times> int) \<times> point3) \<times> gpv_state \<times> point3 \<times> voxel list) option" where
  "gpv_call msk os offset step s =
     (case s of (st, p, visited) \<Rightarrow>
        (case gpv_moves msk os st of
           None \<Rightarrow> None
         | Some moved \<Rightarrow>
             (case gpv_get_seed msk os offset step st p of
                None \<Rightarrow> None
              | Some (ok, p', st') \<Rightarrow>
                  Some (ok, ((index st', subpos st'), p'), st', p', visited @ moved))))"

section \<open>Rejection: construction\<close>

text \<open>The two exceptions the constructor throws (lines 166 and 179).\<close>

datatype error = NegativeValue | EmptyImage

text \<open>\<^verbatim>\<open>std::numeric_limits<size_t>::max()\<close> on a 64-bit platform.\<close>

definition SIZE_MAX :: nat where
  "SIZE_MAX = 2 ^ 64 - 1"

text \<open>
  What the scan of lines 162 to 176 updates: the members \<^verbatim>\<open>max\<close> and \<^verbatim>\<open>volume\<close> and
  the first three components of the local vectors \<^verbatim>\<open>bottom\<close> and \<^verbatim>\<open>top\<close>
  (\<^verbatim>\<open>size_t\<close>, here naturals).
\<close>

record scan_state =
  s_max :: real
  s_volume :: real
  s_bottom :: "nat \<times> nat \<times> nat"
  s_top :: "nat \<times> nat \<times> nat"

fun update_bottom :: "nat \<times> nat \<times> nat \<Rightarrow> voxel \<Rightarrow> nat \<times> nat \<times> nat" where
  "update_bottom (b0, b1, b2) (i0, i1, i2) =
     (if nat i0 < b0 then nat i0 else b0,
      if nat i1 < b1 then nat i1 else b1,
      if nat i2 < b2 then nat i2 else b2)"

fun update_top :: "nat \<times> nat \<times> nat \<Rightarrow> voxel \<Rightarrow> nat \<times> nat \<times> nat" where
  "update_top (t0, t1, t2) (i0, i1, i2) =
     (if nat i0 > t0 then nat i0 else t0,
      if nat i1 > t1 then nat i1 else t1,
      if nat i2 > t2 then nat i2 else t2)"

text \<open>The body of the scan at one voxel (lines 163 to 175).\<close>

definition scan_voxel :: "real image \<Rightarrow> scan_state \<Rightarrow> voxel \<Rightarrow> error + scan_state" where
  "scan_voxel vox s c =
     (let v = value_at vox c
      in if v \<noteq> 0 then
           (if v < 0 then Inl NegativeValue
            else Inr (s\<lparr>s_max := max (s_max s) v,
                        s_volume := s_volume s + v,
                        s_bottom := update_bottom (s_bottom s) c,
                        s_top := update_top (s_top s) c\<rparr>))
         else Inr s)"

fun scan :: "real image \<Rightarrow> scan_state \<Rightarrow> voxel list \<Rightarrow> error + scan_state" where
  "scan vox s [] = Inr s"
| "scan vox s (c # cs) =
     (case scan_voxel vox s c of
        Inl e \<Rightarrow> Inl e
      | Inr s' \<Rightarrow> scan vox s' cs)"

text \<open>
  The state before the scan: \<^verbatim>\<open>max\<close> is initialised to zero at line 156, \<^verbatim>\<open>bottom\<close> and
  \<^verbatim>\<open>top\<close> at lines 159 and 160. The member \<^verbatim>\<open>volume\<close> is initialised by the base
  class, which is not in the sources at hand; it is taken to start at zero, as the
  running sum the specification describes.
\<close>

definition scan_init :: scan_state where
  "scan_init = \<lparr>s_max = 0, s_volume = 0,
                 s_bottom = (SIZE_MAX, SIZE_MAX, SIZE_MAX), s_top = (0, 0, 0)\<rparr>"

fun decrement_bottom :: "nat \<times> nat \<times> nat \<Rightarrow> nat \<times> nat \<times> nat" where
  "decrement_bottom (b0, b1, b2) =
     (if b0 \<noteq> 0 then b0 - 1 else b0, if b1 \<noteq> 0 then b1 - 1 else b1, if b2 \<noteq> 0 then b2 - 1 else b2)"

fun shift_row :: "real \<times> real \<times> real \<times> real \<Rightarrow> point3 \<Rightarrow> real \<times> real \<times> real \<times> real" where
  "shift_row (a, b, c, t) q = (a, b, c, apply_row (a, b, c, t) q)"

text \<open>
  Modelled from the spec: \<^verbatim>\<open>Adapter::Subset\<close>, \<^verbatim>\<open>Image::scratch\<close> and \<^verbatim>\<open>copy\<close> are
  not in the sources at hand. The specification asks of the image layer the
  "construction of a cropped sub-region view given lower/upper bounding-box indices",
  a scratch copy of it, and a "recomputed coordinate transform". The view below holds
  the voxels from the lower to the upper index, both included, and its transform sends
  a voxel of the view where the original transform sends the same voxel of the input.
\<close>

fun Subset :: "'a image \<Rightarrow> nat \<times> nat \<times> nat \<Rightarrow> nat \<times> nat \<times> nat \<Rightarrow> 'a image" where
  "Subset vox (b0, b1, b2) (t0, t1, t2) =
     \<lparr>size0 = int t0 - int b0 + 1,
      size1 = int t1 - int b1 + 1,
      size2 = int t2 - int b2 + 1,
      value_at = (\<lambda>c. value_at vox (ix0 c + int b0, ix1 c + int b1, ix2 c + int b2)),
      voxel2scanner =
        \<lparr>row0 = shift_row (row0 (voxel2scanner vox)) (real b0, real b1, real b2),
         row1 = shift_row (row1 (voxel2scanner vox)) (real b0, real b1, real b2),
         row2 = shift_row (row2 (voxel2scanner vox)) (real b0, real b1, real b2)\<rparr>\<rparr>"

text \<open>The strategy object: the working copy, \<^verbatim>\<open>max\<close> and \<^verbatim>\<open>volume\<close>.\<close>

record rejection =
  working_image :: "real image"
  max_density :: real
  volume :: real

text \<open>\<^verbatim>\<open>Rejection::Rejection\<close> on an opened image with three axes.\<close>

definition Rejection :: "real image \<Rightarrow> error + rejection" where
  "Rejection vox =
     (case scan vox scan_init (raster_axis0_fastest (dims vox)) of
        Inl e \<Rightarrow> Inl e
      | Inr s \<Rightarrow>
          (if s_max s = 0 then Inl EmptyImage
           else
             (let bottom = decrement_bottom (s_bottom s);
                  buf = Subset vox bottom (s_top s)
              in Inr \<lparr>working_image = buf,
                      max_density = s_max s,
                      volume = s_volume s * of_int (size0 buf * size1 buf * size2 buf)\<rparr>)))"

section \<open>Rejection: sampling\<close>

text \<open>
  The do-while loop of lines 223 to 228 (the branch compiled when
  \<^verbatim>\<open>REJECTION_SAMPLING_USE_INTERPOLATION\<close> is not defined).
\<close>

partial_function (option) rejection_draw :: "rejection \<Rightarrow> rng \<Rightarrow> (voxel \<times> rng) option" where
  "rejection_draw R g =
     (let (i0, g1) = uniform_int 0 (size0 (working_image R) - 1) g;
          (i1, g2) = uniform_int 0 (size1 (working_image R) - 1) g1;
          (i2, g3) = uniform_int 0 (size2 (working_image R) - 1) g2;
          (u, g4) = uniform_real g3;
          selector = u * max_density R
      in if value_at (working_image R) (i0, i1, i2) < selector
         then rejection_draw R g4
         else Some ((i0, i1, i2), g4))"

definition Rejection_get_seed :: "rejection \<Rightarrow> rng \<Rightarrow> (bool \<times> point3 \<times> rng) option" where
  "Rejection_get_seed R g =
     (case rejection_draw R g of
        None \<Rightarrow> None
      | Some (c, g') \<Rightarrow>
          (let (q, g'') = random_in_voxel c g'
           in Some (True, transform_point (voxel2scanner (working_image R)) q, g'')))"

text \<open>The voxel and the threshold of the \<open>n\<close>-th attempt: four draws per attempt.\<close>

definition rejection_candidate :: "rejection \<Rightarrow> rng \<Rightarrow> nat \<Rightarrow> voxel" where
  "rejection_candidate R g n =
     (\<lfloor>g (4 * n) * of_int (size0 (working_image R))\<rfloor>,
      \<lfloor>g (4 * n + 1) * of_int (size1 (working_image R))\<rfloor>,
      \<lfloor>g (4 * n + 2) * of_int (size2 (working_image R))\<rfloor>)"

definition rejection_selector :: "rejection \<Rightarrow> rng \<Rightarrow> nat \<Rightarrow> real" where
  "rejection_selector R g n = g (4 * n + 3) * max_density R"

section \<open>Notions used to state and prove the properties\<close>

text \<open>
  Where the cursor stands once it has left the grid, and the chain of positions that
  repeated \<open>cursor_next\<close> runs through from a cursor \<open>c\<close>: every position of the chain
  is inside the grid and the step after the last one leaves the grid.
\<close>

definition grid_end :: "int \<times> int \<times> int \<Rightarrow> voxel" where
  "grid_end d = (fst d, 0, 0)"

fun chain :: "int \<times> int \<times> int \<Rightarrow> voxel \<Rightarrow> voxel list \<Rightarrow> bool" where
  "chain d c [] = (cursor_next d c = grid_end d)"
| "chain d c (v # vs) = (cursor_next d c = v \<and> in_grid d v \<and> chain d v vs)"

fun cur :: "int \<times> int \<times> int \<Rightarrow> nat \<Rightarrow> voxel" where
  "cur (n0, n1, n2) t =
     (int ((t div nat n2) div nat n1), int ((t div nat n2) mod nat n1), int (t mod nat n2))"

fun voxel_count :: "int \<times> int \<times> int \<Rightarrow> nat" where
  "voxel_count (n0, n1, n2) = nat n0 * nat n1 * nat n2"

definition first_stop :: "bool image \<Rightarrow> voxel list \<Rightarrow> voxel" where
  "first_stop msk R =
     (case dropWhile (\<lambda>v. \<not> value_at msk v) R of [] \<Rightarrow> grid_end (dims msk) | v # _ \<Rightarrow> v)"

fun rpv_events :: "bool image \<Rightarrow> voxel list \<Rightarrow> rng \<Rightarrow> (voxel \<times> point3) list" where
  "rpv_events msk [] g = []"
| "rpv_events msk (v # vs) g =
     (v, transform_point (voxel2scanner msk) (fst (random_in_voxel v g)))
       # rpv_events msk vs (rng_drop 3 g)"

definition gpv_wrap :: "int \<Rightarrow> int \<times> int \<times> int \<Rightarrow> bool" where
  "gpv_wrap os sp = (ix2 sp + 1 \<ge> os \<and> ix1 sp + 1 \<ge> os \<and> ix0 sp + 1 \<ge> os)"

definition gpv_point :: "bool image \<Rightarrow> real \<Rightarrow> real \<Rightarrow> voxel \<Rightarrow> int \<times> int \<times> int \<Rightarrow> point3" where
  "gpv_point msk offset step v sp =
     transform_point (voxel2scanner msk)
       (of_int (ix0 v) + offset + of_int (ix0 sp) * step,
        of_int (ix1 v) + offset + of_int (ix1 sp) * step,
        of_int (ix2 v) + offset + of_int (ix2 sp) * step)"

definition gpv_event ::
  "bool image \<Rightarrow> real \<Rightarrow> real \<Rightarrow> voxel \<Rightarrow> int \<times> int \<times> int \<Rightarrow> (voxel \<times> int \<times> int \<times> int) \<times> point3" where
  "gpv_event msk offset step v sp = ((v, sp), gpv_point msk offset step v sp)"

definition gpv_events ::
  "bool image \<Rightarrow> int \<Rightarrow> real \<Rightarrow> real \<Rightarrow> voxel list \<Rightarrow> ((voxel \<times> int \<times> int \<times> int) \<times> point3) list" where
  "gpv_events msk os offset step vs =
     concat (map (\<lambda>v. map (gpv_event msk offset step v) (raster (os, os, os))) vs)"

definition identity_transform :: transform where
  "identity_transform = \<lparr>row0 = (1, 0, 0, 0), row1 = (0, 1, 0, 0), row2 = (0, 0, 1, 0)\<rparr>"

definition constant_rng :: "real \<Rightarrow> rng" where
  "constant_rng u = (\<lambda>n. u)"

definition example_mask :: "bool image" where
  "example_mask = \<lparr>size0 = 2, size1 = 1, size2 = 2,
                    value_at = (\<lambda>c. c = (0, 0, 1) \<or> c = (1, 0, 0)),
                    voxel2scanner = identity_transform\<rparr>"

definition voxel_centre :: "voxel \<Rightarrow> point3" where
  "voxel_centre c = (of_int (ix0 c), of_int (ix1 c), of_int (ix2 c))"

definition sub_voxel_offset :: "point3 \<Rightarrow> bool" where
  "sub_voxel_offset d =
     (case d of (x, y, z) \<Rightarrow> - 1 / 2 \<le> x \<and> x < 1 / 2 \<and> - 1 / 2 \<le> y \<and> y < 1 / 2 \<and> - 1 / 2 \<le> z \<and> z < 1 / 2)"

definition unit_mask :: "bool image" where
  "unit_mask = \<lparr>size0 = 1, size1 = 1, size2 = 1, value_at = (\<lambda>c. True),
                 voxel2scanner = identity_transform\<rparr>"

text \<open>
  The run of a freshly constructed strategy until it returns false: the successful
  calls in order, and the positions the cursor was moved to in order.
\<close>

definition rpv_seeds :: "bool image \<Rightarrow> nat \<Rightarrow> point3 \<Rightarrow> rng \<Rightarrow> (voxel \<times> point3) list option" where
  "rpv_seeds msk num p g = map_option fst (exhaust (rpv_call msk num) (rpv_init, p, g, []) [])"


definition gpv_seeds ::
  "bool image \<Rightarrow> int \<Rightarrow> real \<Rightarrow> real \<Rightarrow> point3 \<Rightarrow> ((voxel \<times> int \<times> int \<times> int) \<times> point3) list option" where
  "gpv_seeds msk os offset step p =
     map_option fst (exhaust (gpv_call msk os offset step) (gpv_init os, p, []) [])"


definition empty_mask :: "bool image" where
  "empty_mask = \<lparr>size0 = 1, size1 = 1, size2 = 1, value_at = (\<lambda>c. False),
                  voxel2scanner = identity_transform\<rparr>"

section \<open>Facts about the model\<close>


lemma product3_nth:
  assumes "t < A * (B * C)"
  shows "List.product [0..<A] (List.product [0..<B] [0..<C]) ! t
           = ((t div C) div B, (t div C) mod B, t mod C)"
proof -
  have bc0: "0 < B * C" using assms by (cases "B * C = 0") auto
  then have pos: "0 < B" "0 < C" by auto
  have bc: "t mod (B * C) < B * C" using bc0 by simp
  have a: "t div (B * C) < A"
    using assms by (simp add: less_mult_imp_div_less mult.commute)
  have "List.product [0..<A] (List.product [0..<B] [0..<C]) ! t
      = (t div (B * C), (t mod (B * C)) div C, (t mod (B * C)) mod C)"
    using assms bc a pos by (simp add: product_nth less_mult_imp_div_less mult.commute)
  moreover have "t div (B * C) = (t div C) div B"
    by (metis div_mult2_eq mult.commute)
  moreover have "(t mod (B * C)) div C = (t div C) mod B"
    using pos by (simp add: mult.commute[of B C] mod_mult2_eq)
  moreover have "(t mod (B * C)) mod C = t mod C"
    by (simp add: mod_mod_cancel)
  ultimately show ?thesis by simp
qed

lemma raster_product:
  "raster (n0, n1, n2) =
     map (\<lambda>(a, b, c). (int a, int b, int c))
       (List.product [0..<nat n0] (List.product [0..<nat n1] [0..<nat n2]))"
  by (simp add: product_concat_map axis_def map_concat comp_def)

lemma length_raster: "length (raster (n0, n1, n2)) = nat n0 * nat n1 * nat n2"
  unfolding raster_product by (simp add: mult.assoc)

lemma raster_nth:
  assumes "t < nat n0 * nat n1 * nat n2"
  shows "raster (n0, n1, n2) ! t = cur (n0, n1, n2) t"
  unfolding raster_product using assms
  by (simp add: mult.assoc product3_nth)

lemma cur_Suc:
  assumes "valid_dims d"
  shows "cursor_next d (cur d t) = cur d (Suc t)"
proof -
  obtain n0 n1 n2 where d: "d = (n0, n1, n2)" by (cases d) auto
  have pos: "0 < n1" "0 < n2" using assms d by auto
  show ?thesis
    using pos unfolding d
    by (simp add: mod_Suc div_Suc) linarith
qed

lemma cur_in_grid:
  assumes "valid_dims d" "t < voxel_count d"
  shows "in_grid d (cur d t)"
proof -
  obtain n0 n1 n2 where d: "d = (n0, n1, n2)" by (cases d) auto
  have "t div nat n2 div nat n1 < nat n0"
    using assms d by (simp add: less_mult_imp_div_less mult.commute mult.left_commute)
  moreover have "t div nat n2 mod nat n1 < nat n1" "t mod nat n2 < nat n2"
    using assms d by simp_all
  ultimately have "int (t div nat n2 div nat n1) < n0"
      "int (t div nat n2 mod nat n1) < n1" "int (t mod nat n2) < n2"
    by (simp_all only: zless_nat_eq_int_zless)
  then show ?thesis using d by simp
qed

lemma cur_end:
  assumes "valid_dims d"
  shows "cur d (voxel_count d) = grid_end d"
proof -
  obtain n0 n1 n2 where d: "d = (n0, n1, n2)" by (cases d) auto
  show ?thesis using assms d by (simp add: grid_end_def)
qed

lemma cur_start:
  assumes "valid_dims d"
  shows "cursor_next d (0, 0, - 1) = cur d 0"
proof -
  obtain n0 n1 n2 where d: "d = (n0, n1, n2)" by (cases d) auto
  show ?thesis using assms d by simp
qed

lemma chain_map_cur:
  assumes "valid_dims d"
  shows "cursor_next d c = cur d t \<Longrightarrow> t \<le> voxel_count d \<Longrightarrow>
         chain d c (map (cur d) [t..<voxel_count d])"
proof (induction "voxel_count d - t" arbitrary: c t)
  case 0
  then show ?case using cur_end[OF assms] by simp
next
  case (Suc k)
  then have lt: "t < voxel_count d" by simp
  have "chain d (cur d t) (map (cur d) [Suc t..<voxel_count d])"
    using Suc lt cur_Suc[OF assms] by (intro Suc.hyps(1)) auto
  then show ?case
    using Suc.prems lt cur_in_grid[OF assms lt] by (simp add: upt_conv_Cons)
qed

lemma raster_eq_map_cur: "raster d = map (cur d) [0..<voxel_count d]"
proof -
  obtain n0 n1 n2 where d: "d = (n0, n1, n2)" by (cases d) auto
  show ?thesis unfolding d
    by (rule nth_equalityI) (simp_all add: length_raster raster_nth del: raster.simps cur.simps)
qed

lemma chain_raster:
  assumes "valid_dims d"
  shows "chain d (0, 0, - 1) (raster d)"
  unfolding raster_eq_map_cur
  using chain_map_cur[OF assms cur_start[OF assms]] by simp

lemma set_raster: "set (raster d) = {c. in_grid d c}"
proof -
  obtain n0 n1 n2 where d: "d = (n0, n1, n2)" by (cases d) auto
  show ?thesis unfolding d
  proof (intro set_eqI iffI)
    fix c assume "c \<in> set (raster (n0, n1, n2))"
    then show "c \<in> {c. in_grid (n0, n1, n2) c}" by (auto simp: axis_def)
  next
    fix c assume c: "c \<in> {c. in_grid (n0, n1, n2) c}"
    obtain i0 i1 i2 where ce: "c = (i0, i1, i2)" by (cases c) auto
    have "i0 \<in> int ` {0..<nat n0}" "i1 \<in> int ` {0..<nat n1}" "i2 \<in> int ` {0..<nat n2}"
      using c ce by (auto simp: image_iff intro: bexI[where x="nat i0"] bexI[where x="nat i1"] bexI[where x="nat i2"])
    then show "c \<in> set (raster (n0, n1, n2))"
      unfolding ce by (auto simp: axis_def)
  qed
qed

lemma distinct_raster: "distinct (raster d)"
proof -
  obtain n0 n1 n2 where d: "d = (n0, n1, n2)" by (cases d) auto
  have "inj (\<lambda>(a, b, c). (int a, int b, int c))"
    by (auto simp: inj_on_def)
  then show ?thesis unfolding d raster_product
    by (simp add: distinct_map distinct_product inj_on_def)
qed

lemma rng_drop_apply: "rng_drop k g n = g (n + k)"
  by (simp add: rng_drop_def)

lemma rng_drop_drop [simp]: "rng_drop a (rng_drop b g) = rng_drop (a + b) g"
  by (rule ext) (simp add: rng_drop_def ac_simps)

lemma rng_drop_0 [simp]: "rng_drop 0 g = g"
  by (rule ext) (simp add: rng_drop_def)

lemma random_in_voxel_eq:
  "random_in_voxel c g =
     ((of_int (ix0 c) + g 0 - 1 / 2, of_int (ix1 c) + g 1 - 1 / 2, of_int (ix2 c) + g 2 - 1 / 2),
      rng_drop 3 g)"
  by (simp add: random_in_voxel_def uniform_real_def rng_drop_apply numeral_3_eq_3 numeral_2_eq_2)

lemma in_grid_ix0: "in_grid (dims msk) v \<Longrightarrow> ix0 v \<noteq> size0 msk"
  by (cases v) (simp add: dims_def)

lemma ix0_grid_end [simp]: "ix0 (grid_end (dims msk)) = size0 msk"
  by (simp add: grid_end_def dims_def)

lemma advance_chain:
  "chain (dims msk) c R \<Longrightarrow> advance msk c = Some (first_stop msk R)"
proof (induction R arbitrary: c)
  case Nil
  then show ?case
    by (subst advance.simps) (simp add: first_stop_def)
next
  case (Cons v vs)
  then have v: "cursor_next (dims msk) c = v" "ix0 v \<noteq> size0 msk" "chain (dims msk) v vs"
    by (simp_all add: in_grid_ix0)
  show ?case
  proof (cases "value_at msk v")
    case True
    then show ?thesis using v by (subst advance.simps) (simp add: first_stop_def)
  next
    case False
    then show ?thesis
      using v Cons.IH[OF v(3)] by (subst advance.simps) (simp add: first_stop_def)
  qed
qed

lemma advance_path_chain:
  "chain (dims msk) c R \<Longrightarrow>
     advance_path msk c = Some (takeWhile (\<lambda>v. \<not> value_at msk v) R @ [first_stop msk R])"
proof (induction R arbitrary: c)
  case Nil
  then show ?case
    by (subst advance_path.simps) (simp add: first_stop_def)
next
  case (Cons v vs)
  then have v: "cursor_next (dims msk) c = v" "ix0 v \<noteq> size0 msk" "chain (dims msk) v vs"
    by (simp_all add: in_grid_ix0)
  show ?case
  proof (cases "value_at msk v")
    case True
    then show ?thesis using v by (subst advance_path.simps) (simp add: first_stop_def)
  next
    case False
    then show ?thesis
      using v Cons.IH[OF v(3)] by (subst advance_path.simps) (simp add: first_stop_def)
  qed
qed

lemma chain_suffix: "chain d c (xs @ v # ys) \<Longrightarrow> chain d v ys \<and> in_grid d v"
proof (induction xs arbitrary: c)
  case Nil
  then show ?case by simp
next
  case (Cons x xs)
  then have "chain d x (xs @ v # ys)" by simp
  then show ?case by (rule Cons.IH)
qed

lemma rpv_events_append:
  "rpv_events msk (xs @ ys) g = rpv_events msk xs g @ rpv_events msk ys (rng_drop (3 * length xs) g)"
  by (induction xs arbitrary: g) (simp_all add: add.commute)

lemma rpv_call_same_voxel:
  assumes "\<not> expired st" "0 \<le> ix2 (index st)" "inc st + 1 \<noteq> k"
  shows "rpv_call msk k (st, p, g, vis) =
           Some (True, (index st, transform_point (voxel2scanner msk) (fst (random_in_voxel (index st) g))),
                 st\<lparr>inc := inc st + 1\<rparr>,
                 transform_point (voxel2scanner msk) (fst (random_in_voxel (index st) g)),
                 rng_drop 3 g, vis)"
  using assms
  by (simp add: rpv_call_def rpv_moves_def rpv_get_seed_def rpv_emit_def random_in_voxel_eq Let_def)

lemma rpv_same_voxel:
  assumes "\<not> expired st" "0 \<le> ix2 (index st)" "inc st + n < k"
  shows "\<exists>p'. exhaust (rpv_call msk k) (st, p, g, vis) acc =
           exhaust (rpv_call msk k) (st\<lparr>inc := inc st + n\<rparr>, p', rng_drop (3 * n) g, vis)
             (acc @ rpv_events msk (replicate n (index st)) g)"
  using assms
proof (induction n arbitrary: st p g acc)
  case 0
  then show ?case by (intro exI[of _ p]) simp
next
  case (Suc n)
  let ?q = "transform_point (voxel2scanner msk) (fst (random_in_voxel (index st) g))"
  let ?st = "st\<lparr>inc := inc st + 1\<rparr>"
  have call: "rpv_call msk k (st, p, g, vis) = Some (True, (index st, ?q), ?st, ?q, rng_drop 3 g, vis)"
    using Suc.prems by (intro rpv_call_same_voxel) auto
  have "\<exists>p'. exhaust (rpv_call msk k) (?st, ?q, rng_drop 3 g, vis) (acc @ [(index st, ?q)]) =
           exhaust (rpv_call msk k) (?st\<lparr>inc := inc ?st + n\<rparr>, p', rng_drop (3 * n) (rng_drop 3 g), vis)
             ((acc @ [(index st, ?q)]) @ rpv_events msk (replicate n (index ?st)) (rng_drop 3 g))"
    using Suc.prems by (intro Suc.IH) auto
  then obtain p' where
    "exhaust (rpv_call msk k) (?st, ?q, rng_drop 3 g, vis) (acc @ [(index st, ?q)]) =
           exhaust (rpv_call msk k) (?st\<lparr>inc := inc ?st + n\<rparr>, p', rng_drop (3 * n) (rng_drop 3 g), vis)
             ((acc @ [(index st, ?q)]) @ rpv_events msk (replicate n (index ?st)) (rng_drop 3 g))"
    by blast
  then show ?case
    by (intro exI[of _ p'], subst exhaust.simps) (simp add: call add.commute)
qed

lemma split_first_masked:
  assumes "dropWhile (\<lambda>v. \<not> value_at msk v) R = v # R'"
  shows "R = takeWhile (\<lambda>v. \<not> value_at msk v) R @ v # R'" "value_at msk v"
        "filter (value_at msk) R = v # filter (value_at msk) R'"
        "length R' < length R"
proof -
  show R: "R = takeWhile (\<lambda>v. \<not> value_at msk v) R @ v # R'"
    using assms by (metis takeWhile_dropWhile_id)
  show v: "value_at msk v"
    using assms by (metis hd_dropWhile list.sel(1) list.distinct(1))
  have "filter (value_at msk) (takeWhile (\<lambda>v. \<not> value_at msk v) R) = []"
    by (auto simp: filter_empty_conv dest: set_takeWhileD)
  then show "filter (value_at msk) R = v # filter (value_at msk) R'"
    using v by (subst R) simp
  show "length R' < length R"
    by (subst R) simp
qed

lemma rpv_call_advance_end:
  assumes "\<not> expired st" "ix2 (index st) < 0 \<or> inc st + 1 = k"
    and "chain (dims msk) (index st) R" "dropWhile (\<lambda>v. \<not> value_at msk v) R = []"
  shows "\<exists>st'. rpv_call msk k (st, p, g, vis) =
           Some (False, (grid_end (dims msk), p), st', p, g, vis @ R @ [grid_end (dims msk)])
         \<and> expired st' \<and> index st' = grid_end (dims msk)"
proof -
  have fs: "first_stop msk R = grid_end (dims msk)"
    unfolding first_stop_def by (simp only: assms(4) list.case)
  have tw: "takeWhile (\<lambda>v. \<not> value_at msk v) R = R"
    using assms(4) by (metis append_Nil2 takeWhile_dropWhile_id)
  show ?thesis
    using assms(1,2) advance_chain[OF assms(3)] advance_path_chain[OF assms(3)]
    by (auto simp: rpv_call_def rpv_moves_def rpv_get_seed_def fs tw Let_def)
qed

lemma rpv_call_advance_voxel:
  assumes "\<not> expired st" "ix2 (index st) < 0 \<or> inc st + 1 = k"
    and "chain (dims msk) (index st) R" "dropWhile (\<lambda>v. \<not> value_at msk v) R = v # R'"
  shows "rpv_call msk k (st, p, g, vis) =
           Some (True, (v, transform_point (voxel2scanner msk) (fst (random_in_voxel v g))),
                 st\<lparr>inc := 0, index := v\<rparr>,
                 transform_point (voxel2scanner msk) (fst (random_in_voxel v g)),
                 rng_drop 3 g, vis @ takeWhile (\<lambda>v. \<not> value_at msk v) R @ [v])"
proof -
  have fs: "first_stop msk R = v"
    using assms(4) by (simp add: first_stop_def)
  have "in_grid (dims msk) v"
    using chain_suffix[of "dims msk" "index st" "takeWhile (\<lambda>v. \<not> value_at msk v) R" v R']
      split_first_masked(1)[OF assms(4)] assms(3) by simp
  then have nz: "ix0 v \<noteq> size0 msk" by (rule in_grid_ix0)
  show ?thesis
    using assms(1,2) nz advance_chain[OF assms(3)] advance_path_chain[OF assms(3)]
    by (auto simp: rpv_call_def rpv_moves_def rpv_get_seed_def rpv_emit_def fs Let_def random_in_voxel_eq)
qed

lemma rpv_run:
  assumes "0 < k"
  shows "chain (dims msk) (index st) R \<Longrightarrow> \<not> expired st \<Longrightarrow>
         ix2 (index st) < 0 \<or> inc st + 1 = k \<Longrightarrow>
         \<exists>st' p' g'. exhaust (rpv_call msk k) (st, p, g, vis) acc =
            Some (acc @ rpv_events msk (concat (map (replicate k) (filter (value_at msk) R))) g,
                  (st', p', g', vis @ R @ [grid_end (dims msk)]))
            \<and> expired st' \<and> index st' = grid_end (dims msk)"
proof (induction "length R" arbitrary: R st p g vis acc rule: less_induct)
  case less
  let ?nz = "\<lambda>v. \<not> value_at msk v"
  show ?case
  proof (cases "dropWhile ?nz R")
    case Nil
    then have flt: "filter (value_at msk) R = []"
      by (simp add: filter_empty_conv)
    obtain st' where st': "rpv_call msk k (st, p, g, vis) =
           Some (False, (grid_end (dims msk), p), st', p, g, vis @ R @ [grid_end (dims msk)])"
         "expired st'" "index st' = grid_end (dims msk)"
      using rpv_call_advance_end[OF less.prems(2,3,1) Nil] by blast
    have "exhaust (rpv_call msk k) (st, p, g, vis) acc =
            Some (acc, (st', p, g, vis @ R @ [grid_end (dims msk)]))"
      by (subst exhaust.simps) (simp add: st'(1))
    then show ?thesis
      using st'(2,3) flt by (intro exI[of _ st'] exI[of _ p] exI[of _ g]) simp
  next
    case (Cons v R')
    note sp = split_first_masked[OF Cons]
    let ?q = "transform_point (voxel2scanner msk) (fst (random_in_voxel v g))"
    let ?st1 = "st\<lparr>inc := 0, index := v\<rparr>"
    let ?vis1 = "vis @ takeWhile ?nz R @ [v]"
    have call: "rpv_call msk k (st, p, g, vis) = Some (True, (v, ?q), ?st1, ?q, rng_drop 3 g, ?vis1)"
      by (rule rpv_call_advance_voxel[OF less.prems(2,3,1) Cons])
    have ch: "chain (dims msk) v R'" and ing: "in_grid (dims msk) v"
      using chain_suffix[of "dims msk" "index st" "takeWhile ?nz R" v R'] sp(1) less.prems(1)
      by simp_all
    have ix2: "0 \<le> ix2 v" using ing by (cases v) (simp add: dims_def)
    obtain p1 where same:
      "exhaust (rpv_call msk k) (?st1, ?q, rng_drop 3 g, ?vis1) (acc @ [(v, ?q)]) =
         exhaust (rpv_call msk k) (?st1\<lparr>inc := inc ?st1 + (k - 1)\<rparr>, p1,
                                   rng_drop (3 * (k - 1)) (rng_drop 3 g), ?vis1)
           ((acc @ [(v, ?q)]) @ rpv_events msk (replicate (k - 1) (index ?st1)) (rng_drop 3 g))"
      using rpv_same_voxel[of ?st1 "k - 1" k msk ?q "rng_drop 3 g" ?vis1 "acc @ [(v, ?q)]"]
        less.prems(2) ix2 assms by auto
    let ?st2 = "?st1\<lparr>inc := inc ?st1 + (k - 1)\<rparr>"
    let ?g2 = "rng_drop (3 * (k - 1)) (rng_drop 3 g)"
    let ?acc2 = "(acc @ [(v, ?q)]) @ rpv_events msk (replicate (k - 1) (index ?st1)) (rng_drop 3 g)"
    obtain st' p' g' where fin:
      "exhaust (rpv_call msk k) (?st2, p1, ?g2, ?vis1) ?acc2 =
         Some (?acc2 @ rpv_events msk (concat (map (replicate k) (filter (value_at msk) R'))) ?g2,
               (st', p', g', ?vis1 @ R' @ [grid_end (dims msk)]))"
      "expired st'" "index st' = grid_end (dims msk)"
      using less.hyps[OF sp(4), of ?st2 p1 ?g2 ?vis1 ?acc2] ch less.prems(2) assms
      by auto
    have vis: "?vis1 @ R' @ [grid_end (dims msk)] = vis @ R @ [grid_end (dims msk)]"
      using sp(1) by (metis append.assoc append_Cons append_Nil)
    have k: "replicate k v = v # replicate (k - 1) v"
      using assms by (cases k) simp_all
    have ev: "?acc2 @ rpv_events msk (concat (map (replicate k) (filter (value_at msk) R'))) ?g2
            = acc @ rpv_events msk (concat (map (replicate k) (filter (value_at msk) R))) g"
      using assms by (simp add: sp(3) k rpv_events_append add.commute)
    show ?thesis
      apply (subst exhaust.simps)
      apply (simp only: call option.case prod.case if_True same fin(1) vis ev)
      using fin(2,3) by blast
  qed
qed

lemma gpv_call_inner:
  assumes "\<not> expired st" "cursor_next (os, os, os) (subpos st) = s" "in_grid (os, os, os) s"
  shows "gpv_call msk os offset step (st, p, vis) =
           Some (True, gpv_event msk offset step (index st) s, st\<lparr>subpos := s\<rparr>,
                 gpv_point msk offset step (index st) s, vis)"
proof -
  obtain p0 p1 p2 where sp: "subpos st = (p0, p1, p2)" by (cases "subpos st") auto
  obtain i0 i1 i2 where ix: "index st = (i0, i1, i2)" by (cases "index st") auto
  show ?thesis
    using assms sp ix
    by (auto simp: gpv_call_def gpv_moves_def gpv_get_seed_def gpv_emit_def gpv_event_def
        gpv_point_def split: if_splits)
qed

lemma gpv_inner:
  "\<not> expired st \<Longrightarrow> chain (os, os, os) (subpos st) S \<Longrightarrow>
     \<exists>p'. exhaust (gpv_call msk os offset step) (st, p, vis) acc =
       exhaust (gpv_call msk os offset step) (st\<lparr>subpos := last (subpos st # S)\<rparr>, p', vis)
         (acc @ map (gpv_event msk offset step (index st)) S)"
proof (induction S arbitrary: st p acc)
  case Nil
  then show ?case by (intro exI[of _ p]) simp
next
  case (Cons s S)
  let ?st = "st\<lparr>subpos := s\<rparr>"
  let ?q = "gpv_point msk offset step (index st) s"
  have call: "gpv_call msk os offset step (st, p, vis) =
      Some (True, gpv_event msk offset step (index st) s, ?st, ?q, vis)"
    using Cons.prems by (intro gpv_call_inner) auto
  have "\<exists>p'. exhaust (gpv_call msk os offset step) (?st, ?q, vis) (acc @ [gpv_event msk offset step (index st) s]) =
       exhaust (gpv_call msk os offset step) (?st\<lparr>subpos := last (subpos ?st # S)\<rparr>, p', vis)
         ((acc @ [gpv_event msk offset step (index st) s]) @ map (gpv_event msk offset step (index ?st)) S)"
    using Cons.prems by (intro Cons.IH) auto
  then obtain p' where
    "exhaust (gpv_call msk os offset step) (?st, ?q, vis) (acc @ [gpv_event msk offset step (index st) s]) =
       exhaust (gpv_call msk os offset step) (?st\<lparr>subpos := last (subpos ?st # S)\<rparr>, p', vis)
         ((acc @ [gpv_event msk offset step (index st) s]) @ map (gpv_event msk offset step (index ?st)) S)"
    by blast
  then show ?case
    by (intro exI[of _ p'], subst exhaust.simps) (simp add: call)
qed

lemma chain_last:
  "chain d c S \<Longrightarrow> cursor_next d (last (c # S)) = grid_end d"
  by (induction S arbitrary: c) simp_all

lemma chain_last_in_grid:
  "chain d c S \<Longrightarrow> in_grid d c \<Longrightarrow> in_grid d (last (c # S))"
  by (induction S arbitrary: c) simp_all

lemma wrap_at_end:
  assumes "in_grid (os, os, os) sp" "cursor_next (os, os, os) sp = grid_end (os, os, os)"
  shows "gpv_wrap os sp"
  using assms by (cases sp) (auto simp: gpv_wrap_def grid_end_def split: if_splits)

lemma raster_cube:
  assumes "0 < os"
  shows "\<exists>S. raster (os, os, os) = (0, 0, 0) # S \<and> chain (os, os, os) (0, 0, 0) S"
proof -
  have v: "valid_dims (os, os, os)" using assms by simp
  have ch: "chain (os, os, os) (0, 0, - 1) (raster (os, os, os))"
    by (rule chain_raster[OF v])
  have "cursor_next (os, os, os) (0, 0, - 1) = (0, 0, 0)" using assms by simp
  then show ?thesis using ch
    by (cases "raster (os, os, os)") (simp_all add: grid_end_def del: raster.simps)
qed

lemma gpv_call_advance_end:
  assumes "\<not> expired st" "gpv_wrap os (subpos st)"
    and "chain (dims msk) (index st) R" "dropWhile (\<lambda>v. \<not> value_at msk v) R = []"
  shows "\<exists>st'. gpv_call msk os offset step (st, p, vis) =
           Some (False, ((grid_end (dims msk), (0, 0, 0)), p), st', p, vis @ R @ [grid_end (dims msk)])
         \<and> expired st' \<and> index st' = grid_end (dims msk)"
proof -
  obtain p0 p1 p2 where sp: "subpos st = (p0, p1, p2)" by (cases "subpos st") auto
  have fs: "first_stop msk R = grid_end (dims msk)"
    unfolding first_stop_def by (simp only: assms(4) list.case)
  have tw: "takeWhile (\<lambda>v. \<not> value_at msk v) R = R"
    using assms(4) by (metis append_Nil2 takeWhile_dropWhile_id)
  show ?thesis
    using assms(1,2) sp advance_chain[OF assms(3)] advance_path_chain[OF assms(3)]
    by (auto simp: gpv_call_def gpv_moves_def gpv_get_seed_def gpv_wrap_def fs tw Let_def)
qed

lemma gpv_call_advance_voxel:
  assumes "\<not> expired st" "gpv_wrap os (subpos st)"
    and "chain (dims msk) (index st) R" "dropWhile (\<lambda>v. \<not> value_at msk v) R = v # R'"
  shows "gpv_call msk os offset step (st, p, vis) =
           Some (True, gpv_event msk offset step v (0, 0, 0),
                 st\<lparr>subpos := (0, 0, 0), index := v\<rparr>,
                 gpv_point msk offset step v (0, 0, 0),
                 vis @ takeWhile (\<lambda>v. \<not> value_at msk v) R @ [v])"
proof -
  obtain p0 p1 p2 where sp: "subpos st = (p0, p1, p2)" by (cases "subpos st") auto
  obtain i0 i1 i2 where v: "v = (i0, i1, i2)" by (cases v) auto
  have fs: "first_stop msk R = v"
    using assms(4) by (simp add: first_stop_def)
  have "in_grid (dims msk) v"
    using chain_suffix[of "dims msk" "index st" "takeWhile (\<lambda>v. \<not> value_at msk v) R" v R']
      split_first_masked(1)[OF assms(4)] assms(3) by simp
  then have nz: "ix0 v \<noteq> size0 msk" by (rule in_grid_ix0)
  show ?thesis
    using assms(1,2) nz sp advance_chain[OF assms(3)] advance_path_chain[OF assms(3)]
    by (auto simp: gpv_call_def gpv_moves_def gpv_get_seed_def gpv_emit_def gpv_wrap_def fs Let_def
        gpv_event_def gpv_point_def v)
qed

lemma gpv_run:
  assumes "0 < os"
  shows "chain (dims msk) (index st) R \<Longrightarrow> \<not> expired st \<Longrightarrow> gpv_wrap os (subpos st) \<Longrightarrow>
         \<exists>st' p'. exhaust (gpv_call msk os offset step) (st, p, vis) acc =
            Some (acc @ gpv_events msk os offset step (filter (value_at msk) R),
                  (st', p', vis @ R @ [grid_end (dims msk)]))
            \<and> expired st' \<and> index st' = grid_end (dims msk)"
proof (induction "length R" arbitrary: R st p vis acc rule: less_induct)
  case less
  let ?nz = "\<lambda>v. \<not> value_at msk v"
  let ?f = "gpv_call msk os offset step"
  show ?case
  proof (cases "dropWhile ?nz R")
    case Nil
    then have flt: "filter (value_at msk) R = []"
      by (simp add: filter_empty_conv)
    obtain st' where st': "?f (st, p, vis) =
           Some (False, ((grid_end (dims msk), (0, 0, 0)), p), st', p, vis @ R @ [grid_end (dims msk)])"
         "expired st'" "index st' = grid_end (dims msk)"
      using gpv_call_advance_end[OF less.prems(2,3,1) Nil] by blast
    have "exhaust ?f (st, p, vis) acc = Some (acc, (st', p, vis @ R @ [grid_end (dims msk)]))"
      by (subst exhaust.simps) (simp add: st'(1))
    then show ?thesis
      using st'(2,3) flt by (intro exI[of _ st'] exI[of _ p]) (simp add: gpv_events_def)
  next
    case (Cons v R')
    note sp = split_first_masked[OF Cons]
    obtain S where S: "raster (os, os, os) = (0, 0, 0) # S" "chain (os, os, os) (0, 0, 0) S"
      using raster_cube[OF assms] by blast
    let ?q = "gpv_point msk offset step v (0, 0, 0)"
    let ?st1 = "st\<lparr>subpos := (0, 0, 0), index := v\<rparr>"
    let ?vis1 = "vis @ takeWhile ?nz R @ [v]"
    let ?acc1 = "acc @ [gpv_event msk offset step v (0, 0, 0)]"
    have call: "?f (st, p, vis) = Some (True, gpv_event msk offset step v (0, 0, 0), ?st1, ?q, ?vis1)"
      by (rule gpv_call_advance_voxel[OF less.prems(2,3,1) Cons])
    have ch: "chain (dims msk) v R'"
      using chain_suffix[of "dims msk" "index st" "takeWhile ?nz R" v R'] sp(1) less.prems(1)
      by simp
    let ?st2 = "?st1\<lparr>subpos := last (subpos ?st1 # S)\<rparr>"
    let ?acc2 = "?acc1 @ map (gpv_event msk offset step (index ?st1)) S"
    obtain p1 where inner:
      "exhaust ?f (?st1, ?q, ?vis1) ?acc1 = exhaust ?f (?st2, p1, ?vis1) ?acc2"
      using gpv_inner[of ?st1 os S msk offset step ?q ?vis1 ?acc1] less.prems(2) S(2) by auto
    have "in_grid (os, os, os) (0, 0, 0)" using assms by simp
    then have wrap: "gpv_wrap os (subpos ?st2)"
      using wrap_at_end[of os "last ((0, 0, 0) # S)"] chain_last[OF S(2)] chain_last_in_grid[OF S(2)]
      by simp
    obtain st' p' where fin:
      "exhaust ?f (?st2, p1, ?vis1) ?acc2 =
         Some (?acc2 @ gpv_events msk os offset step (filter (value_at msk) R'),
               (st', p', ?vis1 @ R' @ [grid_end (dims msk)]))"
      "expired st'" "index st' = grid_end (dims msk)"
      using less.hyps[OF sp(4), of ?st2 p1 ?vis1 ?acc2] ch less.prems(2) wrap
      by auto
    have vis: "?vis1 @ R' @ [grid_end (dims msk)] = vis @ R @ [grid_end (dims msk)]"
      using sp(1) by (metis append.assoc append_Cons append_Nil)
    have ev: "?acc2 @ gpv_events msk os offset step (filter (value_at msk) R')
            = acc @ gpv_events msk os offset step (filter (value_at msk) R)"
      by (simp add: sp(3) gpv_events_def S(1) del: raster.simps)
    show ?thesis
      apply (subst exhaust.simps)
      apply (simp only: call option.case prod.case if_True inner fin(1) vis ev)
      using fin(2,3) by blast
  qed
qed

lemma map_fst_rpv_events [simp]: "map fst (rpv_events msk vs g) = vs"
  by (induction vs arbitrary: g) simp_all

lemma length_rpv_events [simp]: "length (rpv_events msk vs g) = length vs"
  by (induction vs arbitrary: g) simp_all

lemma rpv_events_nth:
  "i < length vs \<Longrightarrow>
     rpv_events msk vs g ! i =
       (vs ! i, transform_point (voxel2scanner msk) (fst (random_in_voxel (vs ! i) (rng_drop (3 * i) g))))"
proof (induction vs arbitrary: g i)
  case Nil
  then show ?case by simp
next
  case (Cons v vs)
  then show ?case by (cases i) (simp_all add: add.commute)
qed

lemma random_in_voxel_offset:
  assumes "rng_ok g"
  shows "\<exists>d. sub_voxel_offset d \<and> fst (random_in_voxel c g) = vec_add (voxel_centre c) d"
proof -
  have "0 \<le> g 0 \<and> g 0 < 1" "0 \<le> g 1 \<and> g 1 < 1" "0 \<le> g 2 \<and> g 2 < 1"
    using assms by (simp_all add: rng_ok_def)
  then show ?thesis
    by (intro exI[of _ "(g 0 - 1 / 2, g 1 - 1 / 2, g 2 - 1 / 2)"])
       (simp add: random_in_voxel_eq sub_voxel_offset_def voxel_centre_def)
qed

lemma rng_ok_drop: "rng_ok g \<Longrightarrow> rng_ok (rng_drop k g)"
  by (simp add: rng_ok_def rng_drop_apply)

lemma count_list_replicate_eq: "count_list (replicate k x) v = (if x = v then k else 0)"
  by (induction k) auto

lemma count_list_concat_replicate:
  "count_list (concat (map (replicate k) xs)) v = k * count_list xs v"
  by (induction xs) (auto simp: count_list_append count_list_replicate_eq)

lemma count_list_filter:
  "count_list (filter P xs) v = (if P v then count_list xs v else 0)"
  by (induction xs) auto

lemma count_list_distinct:
  "distinct xs \<Longrightarrow> count_list xs v = (if v \<in> set xs then 1 else 0)"
  by (induction xs) auto

lemma length_concat_replicate: "length (concat (map (replicate k) xs)) = k * length xs"
  by (induction xs) simp_all

lemma length_filter_raster:
  "length (filter P (raster d)) = card {v. in_grid d v \<and> P v}"
proof -
  have "distinct (filter P (raster d))" using distinct_raster by (rule distinct_filter)
  then have "length (filter P (raster d)) = card (set (filter P (raster d)))"
    by (metis distinct_card)
  also have "set (filter P (raster d)) = {v. in_grid d v \<and> P v}"
    by (auto simp: set_raster)
  finally show ?thesis .
qed

lemma rng_drop_constant [simp]: "rng_drop k (constant_rng u) = constant_rng u"
  by (rule ext) (simp add: rng_drop_def constant_rng_def)

lemma transform_identity [simp]: "transform_point identity_transform q = q"
  by (cases q) (simp add: transform_point_def identity_transform_def)

lemma exhaust_extends:
  fixes f :: "'s \<Rightarrow> (bool \<times> 'a \<times> 's) option"
  assumes "exhaust f s acc = Some r"
  shows "\<exists>ys. fst r = acc @ ys"
proof (rule exhaust.raw_induct[where P = "\<lambda>f s acc r. \<exists>ys. fst r = acc @ ys", OF _ assms])
  fix run :: "('s \<Rightarrow> (bool \<times> 'a \<times> 's) option) \<Rightarrow> 's \<Rightarrow> 'a list \<Rightarrow> ('a list \<times> 's) option"
    and f :: "'s \<Rightarrow> (bool \<times> 'a \<times> 's) option" and s acc r
  assume IH: "\<And>f s acc r. run f s acc = Some r \<Longrightarrow> \<exists>ys. fst r = acc @ ys"
    and body: "(case f s of None \<Rightarrow> None
                | Some (ok, a, s') \<Rightarrow> if ok then run f s' (acc @ [a]) else Some (acc, s')) = Some r"
  show "\<exists>ys. fst r = acc @ ys"
  proof (cases "f s")
    case None
    then show ?thesis using body by simp
  next
    case (Some t)
    obtain ok a s' where t: "t = (ok, a, s')" by (cases t) auto
    show ?thesis
    proof (cases ok)
      case True
      then have "run f s' (acc @ [a]) = Some r" using body Some t by simp
      then obtain ys where "fst r = (acc @ [a]) @ ys" using IH by blast
      then show ?thesis by simp
    next
      case False
      then show ?thesis using body Some t by auto
    qed
  qed
qed

lemma rpv_run_init:
  assumes "valid_dims (dims msk)" and "1 \<le> k"
  shows "\<exists>st' p' g'. exhaust (rpv_call msk k) (rpv_init, p, g, []) [] =
     Some (rpv_events msk (concat (map (replicate k) (filter (value_at msk) (raster (dims msk))))) g,
           (st', p', g', raster (dims msk) @ [grid_end (dims msk)]))"
proof -
  have k: "0 < k" using assms(2) by simp
  have "chain (dims msk) (index rpv_init) (raster (dims msk))"
    using chain_raster[OF assms(1)] by (simp add: rpv_init_def)
  moreover have "\<not> expired rpv_init" "ix2 (index rpv_init) < 0 \<or> inc rpv_init + 1 = k"
    by (simp_all add: rpv_init_def)
  ultimately show ?thesis
    using rpv_run[OF k, of msk rpv_init "raster (dims msk)" p g "[]" "[]"] by auto
qed

lemma rpv_seeds_eq:
  assumes "valid_dims (dims msk)" and "1 \<le> k"
  shows "rpv_seeds msk k p g =
     Some (rpv_events msk (concat (map (replicate k) (filter (value_at msk) (raster (dims msk))))) g)"
  using rpv_run_init[OF assms, of p g] by (auto simp: rpv_seeds_def)


lemma gpv_run_init:
  assumes "valid_dims (dims msk)" and "1 \<le> os"
  shows "\<exists>st' p'. exhaust (gpv_call msk os offset step) (gpv_init os, p, []) [] =
     Some (gpv_events msk os offset step (filter (value_at msk) (raster (dims msk))),
           (st', p', raster (dims msk) @ [grid_end (dims msk)]))"
proof -
  have os: "0 < os" using assms(2) by simp
  have "chain (dims msk) (index (gpv_init os)) (raster (dims msk))"
    using chain_raster[OF assms(1)] by (simp add: gpv_init_def)
  moreover have "\<not> expired (gpv_init os)" "gpv_wrap os (subpos (gpv_init os))"
    by (simp_all add: gpv_init_def gpv_wrap_def)
  ultimately show ?thesis
    using gpv_run[OF os, of msk "gpv_init os" "raster (dims msk)" offset step p "[]" "[]"] by auto
qed

lemma gpv_seeds_eq:
  assumes "valid_dims (dims msk)" and "1 \<le> os"
  shows "gpv_seeds msk os offset step p =
     Some (gpv_events msk os offset step (filter (value_at msk) (raster (dims msk))))"
  using gpv_run_init[OF assms, of offset step p] by (auto simp: gpv_seeds_def)



lemma raster_example_mask:
  "raster (dims example_mask) = [(0, 0, 0), (0, 0, 1), (1, 0, 0), (1, 0, 1)]"
  by (simp add: example_mask_def dims_def axis_def upt_conv_Cons numeral_2_eq_2)

lemma valid_example_mask: "valid_dims (dims example_mask)"
  by (simp add: example_mask_def dims_def)

section \<open>Claims\<close>




text \<open>
  Claim C5. For \<^verbatim>\<open>Random_per_voxel\<close> and \<^verbatim>\<open>Grid_per_voxel\<close>: a call on a state whose
  flag \<^verbatim>\<open>expired\<close> is set returns false and changes nothing, so the flag is never
  cleared; and when a call returns false, the flag is set in the state it leaves, and
  every call on that state returns false and leaves that same state, whatever the
  caller's point and the random draws are. Hence once \<^verbatim>\<open>get_seed\<close> has returned false,
  all later calls return false.
\<close>

theorem exhaustion_is_permanent:
  "(expired rst \<longrightarrow> rpv_get_seed msk k rst p g = Some (False, p, rst, g))
   \<and> (rpv_get_seed msk k rst p g = Some (False, p', rst', g') \<longrightarrow>
        expired rst' \<and> (\<forall>p2 g2. rpv_get_seed msk k rst' p2 g2 = Some (False, p2, rst', g2)))
   \<and> (expired gst \<longrightarrow> gpv_get_seed msk os offset step gst p = Some (False, p, gst))
   \<and> (gpv_get_seed msk os offset step gst p = Some (False, p', gst') \<longrightarrow>
        expired gst' \<and> (\<forall>p2. gpv_get_seed msk os offset step gst' p2 = Some (False, p2, gst')))"
proof (intro conjI impI)
  show "rpv_get_seed msk k rst p g = Some (False, p, rst, g)" if "expired rst"
    using that by (simp add: rpv_get_seed_def)
  show "gpv_get_seed msk os offset step gst p = Some (False, p, gst)" if "expired gst"
    using that by (simp add: gpv_get_seed_def)
  assume r: "rpv_get_seed msk k rst p g = Some (False, p', rst', g')"
  then show e: "expired rst'"
    by (auto simp: rpv_get_seed_def rpv_emit_def Let_def split: if_splits option.splits prod.splits)
  then show "\<forall>p2 g2. rpv_get_seed msk k rst' p2 g2 = Some (False, p2, rst', g2)"
    by (simp add: rpv_get_seed_def)
next
  assume r: "gpv_get_seed msk os offset step gst p = Some (False, p', gst')"
  then show e: "expired gst'"
    by (auto simp: gpv_get_seed_def gpv_emit_def Let_def split: if_splits option.splits prod.splits)
  then show "\<forall>p2. gpv_get_seed msk os offset step gst' p2 = Some (False, p2, gst')"
    by (simp add: gpv_get_seed_def)
qed

lemma lattice_coordinate_inj:
  fixes step offset :: real and i i' a a' os :: int
  assumes "0 < step" "step * of_int os \<le> 1" "0 \<le> a" "a < os" "0 \<le> a'" "a' < os"
    and eq: "of_int i + offset + of_int a * step = of_int i' + offset + of_int a' * step"
  shows "i = i' \<and> a = a'"
proof -
  have d: "(of_int (i - i') :: real) = of_int (a' - a) * step"
    using eq by (simp add: algebra_simps)
  have "\<bar>a' - a\<bar> \<le> os - 1" using assms(3-6) by linarith
  then have "\<bar>of_int (a' - a) :: real\<bar> \<le> of_int (os - 1)"
    by (metis of_int_abs of_int_le_iff)
  then have "\<bar>of_int (a' - a) * step\<bar> \<le> of_int (os - 1) * step"
    using assms(1) by (simp add: abs_mult mult_right_mono)
  also have "\<dots> = step * of_int os - step" by (simp add: algebra_simps)
  also have "\<dots> < 1" using assms(1,2) by linarith
  finally have "\<bar>of_int (i - i') :: real\<bar> < 1" using d by simp
  then have i: "i = i'"
    by (metis abs_less_iff diff_less_eq eq_iff_diff_eq_0 of_int_1 of_int_abs of_int_less_iff zabs_less_one_iff)
  then have "of_int (a' - a) * step = 0" using d by simp
  then have "a' = a" using assms(1) by simp
  with i show ?thesis by simp
qed

lemma gpv_point_inj:
  assumes "0 < step" "step * of_int os \<le> 1" "inj (transform_point (voxel2scanner msk))"
    and "in_grid (os, os, os) sp" "in_grid (os, os, os) sp'"
    and "gpv_point msk offset step v sp = gpv_point msk offset step v' sp'"
  shows "v = v' \<and> sp = sp'"
proof -
  obtain i0 i1 i2 where v: "v = (i0, i1, i2)" by (cases v) auto
  obtain j0 j1 j2 where v': "v' = (j0, j1, j2)" by (cases v') auto
  obtain a0 a1 a2 where sp: "sp = (a0, a1, a2)" by (cases sp) auto
  obtain b0 b1 b2 where sp': "sp' = (b0, b1, b2)" by (cases sp') auto
  let ?X = "(of_int i0 + offset + of_int a0 * step, of_int i1 + offset + of_int a1 * step,
         of_int i2 + offset + of_int a2 * step) :: point3"
  let ?Y = "(of_int j0 + offset + of_int b0 * step, of_int j1 + offset + of_int b1 * step,
         of_int j2 + offset + of_int b2 * step) :: point3"
  have "transform_point (voxel2scanner msk) ?X = transform_point (voxel2scanner msk) ?Y"
    using assms(6) unfolding gpv_point_def v v' sp sp' by simp
  then have "?X = ?Y" by (rule injD[OF assms(3)])
  then have c: "of_int i0 + offset + of_int a0 * step = of_int j0 + offset + of_int b0 * step"
      "of_int i1 + offset + of_int a1 * step = of_int j1 + offset + of_int b1 * step"
      "of_int i2 + offset + of_int a2 * step = of_int j2 + offset + of_int b2 * step"
    by (simp_all only: prod.inject)
  have r: "0 \<le> a0" "a0 < os" "0 \<le> a1" "a1 < os" "0 \<le> a2" "a2 < os"
          "0 \<le> b0" "b0 < os" "0 \<le> b1" "b1 < os" "0 \<le> b2" "b2 < os"
    using assms(4,5) unfolding sp sp' by simp_all
  have "i0 = j0 \<and> a0 = b0"
    by (rule lattice_coordinate_inj[OF assms(1,2) r(1,2,7,8) c(1)])
  moreover have "i1 = j1 \<and> a1 = b1"
    by (rule lattice_coordinate_inj[OF assms(1,2) r(3,4,9,10) c(2)])
  moreover have "i2 = j2 \<and> a2 = b2"
    by (rule lattice_coordinate_inj[OF assms(1,2) r(5,6,11,12) c(3)])
  ultimately have "i0 = j0 \<and> a0 = b0" "i1 = j1 \<and> a1 = b1" "i2 = j2 \<and> a2 = b2"
    by simp_all
  then show ?thesis by (simp add: v v' sp sp')
qed

lemma map_fst_gpv_events:
  "map fst (gpv_events msk os offset step vs) = List.product vs (raster (os, os, os))"
  by (simp add: gpv_events_def product_concat_map map_concat comp_def gpv_event_def del: raster.simps)

lemma map_snd_gpv_events:
  "map snd (gpv_events msk os offset step vs) =
     map (\<lambda>(v, sp). gpv_point msk offset step v sp) (List.product vs (raster (os, os, os)))"
  by (simp add: gpv_events_def product_concat_map map_concat comp_def gpv_event_def del: raster.simps)

lemma length_raster_cube: "length (raster (os, os, os)) = nat os ^ 3"
  by (simp add: length_raster power3_eq_cube del: raster.simps)

lemma gpv_events_per_voxel:
  "distinct vs \<Longrightarrow>
     length (filter (\<lambda>e. fst (fst e) = v) (gpv_events msk os offset step vs))
       = (if v \<in> set vs then nat os ^ 3 else 0)"
proof (induction vs)
  case Nil
  then show ?case by (simp add: gpv_events_def)
next
  case (Cons w vs)
  have split: "gpv_events msk os offset step (w # vs) =
      map (gpv_event msk offset step w) (raster (os, os, os)) @ gpv_events msk os offset step vs"
    by (simp add: gpv_events_def del: raster.simps)
  have here: "length (filter (\<lambda>e. fst (fst e) = v) (map (gpv_event msk offset step w) (raster (os, os, os))))
      = (if w = v then nat os ^ 3 else 0)"
    by (simp add: filter_map comp_def gpv_event_def length_raster_cube del: raster.simps)
  have "length (filter (\<lambda>e. fst (fst e) = v) (gpv_events msk os offset step (w # vs)))
      = (if w = v then nat os ^ 3 else 0) + (if v \<in> set vs then nat os ^ 3 else 0)"
    unfolding split filter_append length_append here using Cons by simp
  then show ?case using Cons.prems by auto
qed

lemma length_gpv_events:
  "length (gpv_events msk os offset step vs) = nat os ^ 3 * length vs"
  using arg_cong[OF map_fst_gpv_events[of msk os offset step vs], of length]
  by (simp add: length_raster_cube mult.commute del: raster.simps)

lemma gpv_events_points:
  "e \<in> set (gpv_events msk os offset step vs) \<Longrightarrow>
     snd e = gpv_point msk offset step (fst (fst e)) (snd (fst e))"
  by (auto simp: gpv_events_def gpv_event_def simp del: raster.simps)

lemma gpv_events_distinct:
  assumes "distinct vs" "0 < step" "step * of_int os \<le> 1"
    "inj (transform_point (voxel2scanner msk))"
  shows "distinct (map snd (gpv_events msk os offset step vs))"
proof -
  have "distinct (List.product vs (raster (os, os, os)))"
    using assms(1) distinct_raster by (rule distinct_product)
  moreover have "inj_on (\<lambda>(v, sp). gpv_point msk offset step v sp)
                   (set (List.product vs (raster (os, os, os))))"
  proof (rule inj_onI)
    fix x y
    assume x: "x \<in> set (List.product vs (raster (os, os, os)))"
      and y: "y \<in> set (List.product vs (raster (os, os, os)))"
      and e: "(case x of (v, sp) \<Rightarrow> gpv_point msk offset step v sp)
            = (case y of (v, sp) \<Rightarrow> gpv_point msk offset step v sp)"
    obtain v sp where xe: "x = (v, sp)" by (cases x) auto
    obtain v' sp' where ye: "y = (v', sp')" by (cases y) auto
    have "in_grid (os, os, os) sp" "in_grid (os, os, os) sp'"
      using x y xe ye set_raster[of "(os, os, os)"] by (auto simp del: raster.simps)
    then show "x = y"
      using gpv_point_inj[OF assms(2,3,4), of sp sp' offset v v'] e xe ye by simp
  qed
  ultimately show ?thesis
    unfolding map_snd_gpv_events by (simp add: distinct_map)
qed

text \<open>
  Claim C4, as amended. On a grid with at least one voxel on every axis and for an
  oversampling factor \<open>os\<close> of at least one, calling \<^verbatim>\<open>Grid_per_voxel::get_seed\<close> from
  the constructed state until it returns false does return false, and the successful
  calls are, in order, the sub-positions \<open>(0,0,0)\<close> to \<open>(os-1,os-1,os-1)\<close> (last
  component fastest) of each voxel with a non-zero mask value, the voxels in raster
  order: \<open>os\<^sup>3\<close> seeds on every such voxel and none on any other. The point of a
  seed is the transform of the voxel index plus \<open>offset + pos[d] * step\<close> on each axis.
  No two seeds coincide when the transform is injective and \<open>step\<close> is positive with
  \<open>os * step \<le> 1\<close> (as for \<open>step = 1 / os\<close>). (As stated, for every oversampling
  factor, the claim fails at factor zero: see the counterexample.)
\<close>

theorem gpv_lattice_coverage:
  assumes "valid_dims (dims msk)" and "1 \<le> os"
  shows "\<exists>evs. gpv_seeds msk os offset step p = Some evs
         \<and> map fst evs = List.product (filter (value_at msk) (raster (dims msk))) (raster (os, os, os))
         \<and> (\<forall>v. length (filter (\<lambda>e. fst (fst e) = v) evs)
                  = (if in_grid (dims msk) v \<and> value_at msk v then nat os ^ 3 else 0))
         \<and> length evs = nat os ^ 3 * card {v. in_grid (dims msk) v \<and> value_at msk v}
         \<and> (\<forall>e \<in> set evs. snd e = gpv_point msk offset step (fst (fst e)) (snd (fst e)))
         \<and> (0 < step \<and> step * of_int os \<le> 1 \<and> inj (transform_point (voxel2scanner msk))
              \<longrightarrow> distinct (map snd evs))"
proof -
  let ?vs = "filter (value_at msk) (raster (dims msk))"
  let ?evs = "gpv_events msk os offset step ?vs"
  have d: "distinct ?vs" using distinct_raster by (rule distinct_filter)
  have "gpv_seeds msk os offset step p = Some ?evs"
    by (rule gpv_seeds_eq[OF assms])
  moreover have "map fst ?evs = List.product ?vs (raster (os, os, os))"
    by (rule map_fst_gpv_events)
  moreover have "\<forall>v. length (filter (\<lambda>e. fst (fst e) = v) ?evs)
                  = (if in_grid (dims msk) v \<and> value_at msk v then nat os ^ 3 else 0)"
    using gpv_events_per_voxel[OF d] by (simp add: set_raster)
  moreover have "length ?evs = nat os ^ 3 * card {v. in_grid (dims msk) v \<and> value_at msk v}"
    by (simp add: length_gpv_events length_filter_raster)
  moreover have "\<forall>e \<in> set ?evs. snd e = gpv_point msk offset step (fst (fst e)) (snd (fst e))"
    using gpv_events_points by blast
  moreover have "0 < step \<and> step * of_int os \<le> 1 \<and> inj (transform_point (voxel2scanner msk))
              \<longrightarrow> distinct (map snd ?evs)"
    using gpv_events_distinct[OF d] by blast
  ultimately show ?thesis by blast
qed

lemma inj_identity_transform: "inj (transform_point identity_transform)"
  by (rule injI) simp

theorem gpv_lattice_coverage_witness:
  "valid_dims (dims example_mask) \<and> (1::int) \<le> 2 \<and> (0::real) < 1 / 2 \<and> (1 / 2 :: real) * of_int 2 \<le> 1
   \<and> inj (transform_point (voxel2scanner example_mask))
   \<and> (\<exists>evs. gpv_seeds example_mask 2 (- 1 / 4) (1 / 2) (0, 0, 0) = Some evs
        \<and> length evs = 16 \<and> distinct (map snd evs)
        \<and> length (filter (\<lambda>e. fst (fst e) = (1, 0, 0)) evs) = 8
        \<and> length (filter (\<lambda>e. fst (fst e) = (0, 0, 0)) evs) = 0)"
proof -
  have inj: "inj (transform_point (voxel2scanner example_mask))"
    using inj_identity_transform by (simp add: example_mask_def)
  have card: "card {v. in_grid (dims example_mask) v \<and> value_at example_mask v} = 2"
    using length_filter_raster[of "value_at example_mask" "dims example_mask"]
    unfolding raster_example_mask by (simp add: example_mask_def)
  have v: "in_grid (dims example_mask) (1, 0, 0) \<and> value_at example_mask (1, 0, 0)"
       "\<not> (in_grid (dims example_mask) (0, 0, 0) \<and> value_at example_mask (0, 0, 0))"
    by (simp_all add: example_mask_def dims_def)
  obtain evs where e: "gpv_seeds example_mask 2 (- 1 / 4) (1 / 2) (0, 0, 0) = Some evs"
    and l: "length evs = nat 2 ^ 3 * card {v. in_grid (dims example_mask) v \<and> value_at example_mask v}"
    and c: "\<forall>v. length (filter (\<lambda>e. fst (fst e) = v) evs)
                  = (if in_grid (dims example_mask) v \<and> value_at example_mask v then nat 2 ^ 3 else 0)"
    and d: "0 < (1 / 2 :: real) \<and> (1 / 2 :: real) * of_int 2 \<le> 1 \<and> inj (transform_point (voxel2scanner example_mask))
              \<longrightarrow> distinct (map snd evs)"
    using gpv_lattice_coverage[OF valid_example_mask, of 2 "- 1 / 4" "1 / 2" "(0, 0, 0)"] by auto
  have "length evs = 16" using l card by simp
  moreover have "distinct (map snd evs)" using d inj by simp
  moreover have "length (filter (\<lambda>e. fst (fst e) = (1, 0, 0)) evs) = 8"
    using c v(1) by simp
  moreover have "length (filter (\<lambda>e. fst (fst e) = (0, 0, 0)) evs) = 0"
    using c v(2) by (simp del: length_0_conv filter_False filter_empty_conv)
  ultimately show ?thesis
    using e inj valid_example_mask by (intro conjI exI[of _ evs]) simp_all
qed

lemma advance_unit_mask:
  "advance unit_mask (0, 0, - 1) = Some (0, 0, 0)" "advance unit_mask (0, 0, 0) = Some (1, 0, 0)"
  "advance_path unit_mask (0, 0, - 1) = Some [(0, 0, 0)]" "advance_path unit_mask (0, 0, 0) = Some [(1, 0, 0)]"
  by (subst advance.simps advance_path.simps, simp add: unit_mask_def dims_def)+

text \<open>
  With oversampling factor zero every comparison \<^verbatim>\<open>++pos[d] >= os\<close> holds, so each call
  moves the cursor to the next voxel and emits one seed there: on a one-voxel mask the
  run yields one seed, not \<open>0\<^sup>3 = 0\<close>.
\<close>

theorem gpv_oversampling_zero_counterexample:
  "gpv_seeds unit_mask 0 0 1 (0, 0, 0) = Some [(((0, 0, 0), (0, 0, 0)), (0, 0, 0))]"
proof -
  have u: "size0 unit_mask = 1" "voxel2scanner unit_mask = identity_transform"
    by (simp_all add: unit_mask_def)
  let ?st = "\<lparr>index = (0, 0, 0), expired = False, subpos = (0, 0, 0)\<rparr>"
  have c1: "gpv_call unit_mask 0 0 1 (gpv_init 0, (0, 0, 0), []) =
      Some (True, (((0, 0, 0), (0, 0, 0)), (0, 0, 0)), ?st, (0, 0, 0), [(0, 0, 0)])"
    by (simp add: gpv_call_def gpv_moves_def gpv_get_seed_def gpv_emit_def gpv_init_def
        advance_unit_mask u)
  have c2: "gpv_call unit_mask 0 0 1 (?st, (0, 0, 0), [(0, 0, 0)]) =
      Some (False, (((1, 0, 0), (0, 0, 0)), (0, 0, 0)),
            \<lparr>index = (1, 0, 0), expired = True, subpos = (0, 0, 0)\<rparr>, (0, 0, 0), [(0, 0, 0), (1, 0, 0)])"
    by (simp add: gpv_call_def gpv_moves_def gpv_get_seed_def gpv_emit_def advance_unit_mask u)
  show ?thesis
    unfolding gpv_seeds_def
    by (subst exhaust.simps, simp only: c1 option.case prod.case if_True,
        subst exhaust.simps, simp add: c2)
qed

text \<open>
  Claim C1, as amended. On a grid with at least one voxel on every axis and for a quota
  \<open>k\<close> of at least one, calling \<^verbatim>\<open>Random_per_voxel::get_seed\<close> from the constructed state
  until it returns false does return false, and the successful calls are, in order,
  \<open>k\<close> seeds on each voxel with a non-zero mask value, the voxels in raster order. So
  every voxel of the grid with a non-zero value is the voxel of exactly \<open>k\<close> seeds, every
  other voxel of none, and the number of successful calls is \<open>k\<close> times the number of
  non-zero voxels. Each seed is the transform of its voxel index plus an offset in
  \<open>[-1/2, 1/2)\<close> on every axis. (As stated, for every quota, the claim fails at quota
  zero: see the counterexample.)
\<close>

theorem rpv_exhaustive_coverage:
  assumes "valid_dims (dims msk)" and "1 \<le> k"
  shows "\<exists>evs. rpv_seeds msk k p g = Some evs
         \<and> map fst evs = concat (map (replicate k) (filter (value_at msk) (raster (dims msk))))
         \<and> (\<forall>v. count_list (map fst evs) v = (if in_grid (dims msk) v \<and> value_at msk v then k else 0))
         \<and> length evs = k * card {v. in_grid (dims msk) v \<and> value_at msk v}
         \<and> (rng_ok g \<longrightarrow>
              (\<forall>e \<in> set evs. \<exists>d. sub_voxel_offset d \<and>
                 snd e = transform_point (voxel2scanner msk) (vec_add (voxel_centre (fst e)) d)))"
proof -
  let ?vs = "concat (map (replicate k) (filter (value_at msk) (raster (dims msk))))"
  let ?evs = "rpv_events msk ?vs g"
  have run: "rpv_seeds msk k p g = Some ?evs" by (rule rpv_seeds_eq[OF assms])
  have c: "\<forall>v. count_list (map fst ?evs) v = (if in_grid (dims msk) v \<and> value_at msk v then k else 0)"
    by (simp add: count_list_concat_replicate count_list_filter count_list_distinct[OF distinct_raster]
        set_raster)
  have l: "length ?evs = k * card {v. in_grid (dims msk) v \<and> value_at msk v}"
    by (simp add: length_concat_replicate length_filter_raster)
  have o: "rng_ok g \<longrightarrow>
              (\<forall>e \<in> set ?evs. \<exists>d. sub_voxel_offset d \<and>
                 snd e = transform_point (voxel2scanner msk) (vec_add (voxel_centre (fst e)) d))"
  proof (intro impI ballI)
    fix e assume ok: "rng_ok g" and "e \<in> set ?evs"
    then obtain i where i: "i < length ?vs" "e = ?evs ! i"
      by (metis in_set_conv_nth length_rpv_events)
    obtain d where "sub_voxel_offset d"
      "fst (random_in_voxel (?vs ! i) (rng_drop (3 * i) g)) = vec_add (voxel_centre (?vs ! i)) d"
      using random_in_voxel_offset[OF rng_ok_drop[OF ok]] by blast
    then show "\<exists>d. sub_voxel_offset d \<and>
                 snd e = transform_point (voxel2scanner msk) (vec_add (voxel_centre (fst e)) d)"
      using i by (intro exI[of _ d]) (simp add: rpv_events_nth)
  qed
  show ?thesis
    using run c l o by (intro exI[of _ ?evs]) simp
qed

theorem rpv_exhaustive_coverage_witness:
  "valid_dims (dims example_mask) \<and> (1::nat) \<le> 2 \<and> rng_ok (constant_rng (1 / 2)) \<and>
   (\<exists>evs. rpv_seeds example_mask 2 (0, 0, 0) (constant_rng (1 / 2)) = Some evs
      \<and> map fst evs = [(0, 0, 1), (0, 0, 1), (1, 0, 0), (1, 0, 0)]
      \<and> length evs = 2 * card {v. in_grid (dims example_mask) v \<and> value_at example_mask v})"
proof -
  have f: "filter (value_at example_mask) [(0, 0, 0), (0, 0, 1), (1, 0, 0), (1, 0, 1)] = [(0, 0, 1), (1, 0, 0)]"
    by (simp add: example_mask_def)
  have g: "rng_ok (constant_rng (1 / 2))" by (simp add: rng_ok_def constant_rng_def)
  obtain evs where
    run: "rpv_seeds example_mask 2 (0, 0, 0) (constant_rng (1 / 2)) = Some evs"
    and m: "map fst evs = concat (map (replicate 2) (filter (value_at example_mask) (raster (dims example_mask))))"
    and l: "length evs = 2 * card {v. in_grid (dims example_mask) v \<and> value_at example_mask v}"
    using rpv_exhaustive_coverage[OF valid_example_mask, of 2 "(0, 0, 0)" "constant_rng (1 / 2)"] by auto
  have "map fst evs = [(0, 0, 1), (0, 0, 1), (1, 0, 0), (1, 0, 0)]"
    unfolding m raster_example_mask f by (simp add: numeral_2_eq_2)
  then show ?thesis using valid_example_mask g run l by (intro conjI exI[of _ evs]) simp_all
qed

text \<open>
  With quota zero on a one-voxel mask the first call already returns true with a seed of
  voxel \<open>(0, 0, 0)\<close> (line 80 compares the counter after its increment, so it never
  equals zero): the run does not end with no seed.
\<close>

theorem rpv_quota_zero_counterexample:
  "rpv_seeds unit_mask 0 (0, 0, 0) (constant_rng (1 / 2)) \<noteq> Some []"
proof
  assume a: "rpv_seeds unit_mask 0 (0, 0, 0) (constant_rng (1 / 2)) = Some []"
  have u: "size0 unit_mask = 1" "voxel2scanner unit_mask = identity_transform"
    by (simp_all add: unit_mask_def)
  have call: "rpv_call unit_mask 0 (rpv_init, (0, 0, 0), constant_rng (1 / 2), []) =
     Some (True, ((0, 0, 0), (0, 0, 0)),
           \<lparr>index = (0, 0, 0), expired = False, inc = 0\<rparr>, (0, 0, 0), constant_rng (1 / 2), [(0, 0, 0)])"
    by (simp add: rpv_call_def rpv_moves_def rpv_get_seed_def rpv_emit_def rpv_init_def advance_unit_mask u
        random_in_voxel_eq constant_rng_def[of "1 / 2", THEN fun_cong])
  from a obtain s where "exhaust (rpv_call unit_mask 0) (rpv_init, (0, 0, 0), constant_rng (1 / 2), []) [] = Some ([], s)"
    by (auto simp: rpv_seeds_def)
  then have "exhaust (rpv_call unit_mask 0)
        (\<lparr>index = (0, 0, 0), expired = False, inc = 0\<rparr>, (0, 0, 0), constant_rng (1 / 2), [(0, 0, 0)])
        ([] @ [((0, 0, 0), (0, 0, 0))]) = Some ([], s)"
    by (subst (asm) exhaust.simps) (simp add: call)
  from exhaust_extends[OF this] show False by simp
qed

theorem exhaustion_is_permanent_witness:
  "rpv_get_seed empty_mask 1 rpv_init (0, 0, 0) (constant_rng (1 / 2))
      = Some (False, (0, 0, 0), \<lparr>index = (1, 0, 0), expired = True, inc = 0\<rparr>, constant_rng (1 / 2))
   \<and> rpv_get_seed empty_mask 1 \<lparr>index = (1, 0, 0), expired = True, inc = 0\<rparr> (1, 1, 1) (constant_rng 0)
      = Some (False, (1, 1, 1), \<lparr>index = (1, 0, 0), expired = True, inc = 0\<rparr>, constant_rng 0)
   \<and> gpv_get_seed empty_mask 1 0 1 (gpv_init 1) (0, 0, 0)
      = Some (False, (0, 0, 0), \<lparr>index = (1, 0, 0), expired = True, subpos = (0, 0, 0)\<rparr>)
   \<and> gpv_get_seed empty_mask 1 0 1 \<lparr>index = (1, 0, 0), expired = True, subpos = (0, 0, 0)\<rparr> (1, 1, 1)
      = Some (False, (1, 1, 1), \<lparr>index = (1, 0, 0), expired = True, subpos = (0, 0, 0)\<rparr>)"
proof -
  have a: "advance empty_mask (0, 0, - 1) = Some (1, 0, 0)"
    by (subst advance.simps, simp add: empty_mask_def dims_def, subst advance.simps,
        simp add: empty_mask_def dims_def)
  have r: "rpv_get_seed empty_mask 1 rpv_init (0, 0, 0) (constant_rng (1 / 2))
      = Some (False, (0, 0, 0), \<lparr>index = (1, 0, 0), expired = True, inc = 0\<rparr>, constant_rng (1 / 2))"
    by (simp add: rpv_get_seed_def rpv_init_def a) (simp add: empty_mask_def)
  have g: "gpv_get_seed empty_mask 1 0 1 (gpv_init 1) (0, 0, 0)
      = Some (False, (0, 0, 0), \<lparr>index = (1, 0, 0), expired = True, subpos = (0, 0, 0)\<rparr>)"
    by (simp add: gpv_get_seed_def gpv_init_def a) (simp add: empty_mask_def)
  show ?thesis
    using exhaustion_is_permanent[of "\<lparr>index = (1, 0, 0), expired = True, inc = 0\<rparr>" empty_mask 1
        "(0, 0, 0)" "constant_rng (1 / 2)" "(0, 0, 0)" "\<lparr>index = (1, 0, 0), expired = True, inc = 0\<rparr>"
        "constant_rng (1 / 2)" "\<lparr>index = (1, 0, 0), expired = True, subpos = (0, 0, 0)\<rparr>"
        1 0 1 "\<lparr>index = (1, 0, 0), expired = True, subpos = (0, 0, 0)\<rparr>"]
      r g
    by simp
qed

end
